theory Spec2Isabelle
  imports Main "HOL-Library.AList"
begin

section \<open>Disk analyzer: errors, paths and patterns\<close>

text \<open>
  The exceptions of \<^verbatim>\<open>da.py\<close> and of the library calls it makes, as values.
  \<open>ValueError\<close> is what \<^verbatim>\<open>os.path.relpath\<close> raises on an empty path, \<open>OSError\<close> what a
  failed \<^verbatim>\<open>stat\<close> raises, \<open>TraversalError\<close> the program's own exception.
\<close>

datatype error = OSError | ValueError | TraversalError

subsection \<open>posixpath\<close>

text \<open>
  \<^verbatim>\<open>os.path.join(a, b)\<close>: an absolute second part replaces the first; otherwise the parts
  are concatenated, with a separator unless the first part is empty or ends with one.
\<close>

definition startswith :: "string \<Rightarrow> string \<Rightarrow> bool" where
  "startswith pre s = (take (length pre) s = pre)"

definition os_path_join :: "string \<Rightarrow> string \<Rightarrow> string" where
  "os_path_join a b =
     (if startswith ''/'' b then b
      else if a = [] \<or> last a = CHR ''/'' then a @ b
      else a @ ''/'' @ b)"

text \<open>
  \<^verbatim>\<open>os.path.dirname(p)\<close>: everything up to and including the last separator, with the
  trailing separators stripped unless the head consists of separators only.
\<close>

definition os_path_dirname :: "string \<Rightarrow> string" where
  "os_path_dirname p =
     (let head = rev (dropWhile (\<lambda>c. c \<noteq> CHR ''/'') (rev p))
      in if head \<noteq> [] \<and> \<not> list_all (\<lambda>c. c = CHR ''/'') head
         then rev (dropWhile (\<lambda>c. c = CHR ''/'') (rev head))
         else head)"

text \<open>\<^verbatim>\<open>s.split('/')\<close>\<close>

fun split_sep :: "string \<Rightarrow> string list" where
  "split_sep [] = [[]]"
| "split_sep (c # cs) =
     (if c = CHR ''/'' then [] # split_sep cs
      else (case split_sep cs of [] \<Rightarrow> [[c]] | w # ws \<Rightarrow> (c # w) # ws))"

text \<open>
  The loop of \<^verbatim>\<open>os.path.normpath\<close> over the components of a path: empty and \<open>.\<close>
  components are dropped, \<open>..\<close> removes the component before it, is dropped at the root
  of an absolute path and is kept at the start of a relative one. The accumulator holds
  the components kept so far, last one first.
\<close>

fun norm_comps :: "bool \<Rightarrow> string list \<Rightarrow> string list \<Rightarrow> string list" where
  "norm_comps initial_slashes new_comps [] = rev new_comps"
| "norm_comps initial_slashes new_comps (part # parts) =
     (if part = [] \<or> part = ''.'' then norm_comps initial_slashes new_comps parts
      else if part \<noteq> ''..'' \<or> (\<not> initial_slashes \<and> new_comps = [])
                \<or> (new_comps \<noteq> [] \<and> hd new_comps = ''..'')
      then norm_comps initial_slashes (part # new_comps) parts
      else norm_comps initial_slashes (tl new_comps) parts)"

text \<open>
  The non-empty components of \<^verbatim>\<open>os.path.abspath(path)\<close>, the working directory
  \<^verbatim>\<open>os.getcwd()\<close> being a parameter.
\<close>

definition abspath_list :: "string \<Rightarrow> string \<Rightarrow> string list" where
  "abspath_list cwd path =
     (let p = (if startswith ''/'' path then path else os_path_join cwd path)
      in norm_comps (startswith ''/'' p) [] (split_sep p))"

fun commonprefix :: "string list \<Rightarrow> string list \<Rightarrow> string list" where
  "commonprefix (x # xs) (y # ys) = (if x = y then x # commonprefix xs ys else [])"
| "commonprefix _ _ = []"

text \<open>
  \<^verbatim>\<open>os.path.relpath(path, start)\<close>. It raises \<open>ValueError\<close> on an empty path.
\<close>

definition os_path_relpath :: "string \<Rightarrow> string \<Rightarrow> string \<Rightarrow> error + string" where
  "os_path_relpath cwd path start =
     (if path = [] then Inl ValueError
      else
        let start_list = abspath_list cwd start;
            path_list = abspath_list cwd path;
            i = length (commonprefix start_list path_list);
            rel_list = replicate (length start_list - i) ''..'' @ drop i path_list
        in Inr (if rel_list = [] then ''.''
                else foldl os_path_join (hd rel_list) (tl rel_list)))"

subsection \<open>fnmatch\<close>

text \<open>
  \<^verbatim>\<open>fnmatch.fnmatch(name, pat)\<close> on POSIX, where \<^verbatim>\<open>normcase\<close> is the identity. The
  pattern is translated into items: \<open>*\<close> matches any string (separators included), \<open>?\<close>
  any one character, \<open>[seq]\<close> one character of the set, \<open>[!seq]\<close> one character out
  of it, any other character itself. A \<open>[\<close> with no closing \<open>]\<close> is literal; a \<open>]\<close>
  right after \<open>[\<close> or \<open>[!\<close> belongs to the set. The whole name must match.
\<close>

datatype glob_item = Star | AnyChar | Lit char | CharSet bool string

text \<open>The position of the closing bracket: the text of the set and what follows it.\<close>

fun find_close :: "string \<Rightarrow> (string \<times> string) option" where
  "find_close [] = None"
| "find_close (c # cs) =
     (if c = CHR '']'' then Some ([], cs)
      else (case find_close cs of None \<Rightarrow> None | Some (stuff, rest) \<Rightarrow> Some (c # stuff, rest)))"

definition bracket :: "string \<Rightarrow> (bool \<times> string \<times> string) option" where
  "bracket cs =
     (let neg = startswith ''!'' cs;
          cs1 = (if neg then tl cs else cs);
          first = (if startswith '']'' cs1 then '']'' else []);
          cs2 = (if startswith '']'' cs1 then tl cs1 else cs1)
      in (case find_close cs2 of None \<Rightarrow> None
          | Some (stuff, rest) \<Rightarrow> Some (neg, first @ stuff, rest)))"

lemma find_close_length: "find_close cs = Some (stuff, rest) \<Longrightarrow> length rest < length cs"
  by (induction cs arbitrary: stuff rest) (auto split: if_splits option.splits)

lemma bracket_length: "bracket cs = Some (neg, stuff, rest) \<Longrightarrow> length rest \<le> length cs"
  by (auto simp: bracket_def Let_def startswith_def split: option.splits if_splits
           dest!: find_close_length)

function translate :: "string \<Rightarrow> glob_item list" where
  "translate [] = []"
| "translate (c # cs) =
     (if c = CHR ''*'' then Star # translate cs
      else if c = CHR ''?'' then AnyChar # translate cs
      else if c = CHR ''['' then
        (case bracket cs of
           None \<Rightarrow> Lit c # translate cs
         | Some (neg, stuff, rest) \<Rightarrow> CharSet neg stuff # translate rest)
      else Lit c # translate cs)"
  by pat_completeness auto
termination
  by (relation "measure length") (auto dest: bracket_length)

text \<open>Membership in the text of a set: \<open>a-b\<close> is a range, any other character itself.\<close>

fun in_set :: "string \<Rightarrow> char \<Rightarrow> bool" where
  "in_set (a # d # b # rest) c =
     (if d = CHR ''-'' then (of_char a \<le> (of_char c :: nat) \<and> of_char c \<le> (of_char b :: nat)) \<or> in_set rest c
      else a = c \<or> in_set (d # b # rest) c)"
| "in_set (a # rest) c = (a = c \<or> in_set rest c)"
| "in_set [] c = False"

fun item_match :: "glob_item \<Rightarrow> char \<Rightarrow> bool" where
  "item_match Star c = True"
| "item_match AnyChar c = True"
| "item_match (Lit a) c = (a = c)"
| "item_match (CharSet neg stuff) c = (in_set stuff c \<noteq> neg)"

fun glob_match :: "glob_item list \<Rightarrow> string \<Rightarrow> bool" where
  "glob_match [] s = (s = [])"
| "glob_match (Star # items) [] = glob_match items []"
| "glob_match (Star # items) (c # cs) = (glob_match items (c # cs) \<or> glob_match (Star # items) cs)"
| "glob_match (item # items) [] = False"
| "glob_match (item # items) (c # cs) = (item_match item c \<and> glob_match items cs)"

definition fnmatch :: "string \<Rightarrow> string \<Rightarrow> bool" where
  "fnmatch name pat = glob_match (translate pat) name"

subsection \<open>Patterns\<close>

text \<open>
  \<^verbatim>\<open>compile_pattern\<close> returns either a compiled regular expression or the glob string. A
  compiled expression is represented by what \<^verbatim>\<open>pattern.search\<close> decides on a string.
\<close>

datatype pattern = Regex "string \<Rightarrow> bool" | Glob string

fun match_pattern :: "string \<Rightarrow> pattern \<Rightarrow> bool \<Rightarrow> bool" where
  "match_pattern path (Regex search) is_absolute = search path"
| "match_pattern path (Glob pat) is_absolute =
     (if startswith ''/'' pat then fnmatch path pat
      else if is_absolute then fnmatch path (''*/'' @ pat)
      else fnmatch path pat \<or> fnmatch path (''*/'' @ pat))"

section \<open>Filtering the size index\<close>

text \<open>
  A size index (\<^verbatim>\<open>Dict[str, int]\<close>) is an association list in insertion order, which is
  the order a Python dictionary iterates in; \<open>AList.update\<close> is \<^verbatim>\<open>d[k] = v\<close>. A pattern
  list that is \<^verbatim>\<open>None\<close> behaves as the empty list everywhere (\<^verbatim>\<open>if whitelist_patterns:\<close>).
\<close>

type_synonym index = "(string \<times> int) list"

text \<open>
  The loop \<^verbatim>\<open>for pattern in patterns: if match_pattern(rel_path, pattern): ...; break\<close>.
\<close>

fun any_match :: "string \<Rightarrow> pattern list \<Rightarrow> bool" where
  "any_match rel_path [] = False"
| "any_match rel_path (pattern # patterns) =
     (if match_pattern rel_path pattern False then True else any_match rel_path patterns)"

text \<open>First pass of \<^verbatim>\<open>filter_paths\<close>: the set \<^verbatim>\<open>whitelist_matches\<close>.\<close>

fun whitelist_pass ::
  "string \<Rightarrow> string \<Rightarrow> pattern list \<Rightarrow> string list \<Rightarrow> string set \<Rightarrow> error + string set" where
  "whitelist_pass cwd root wl [] whitelist_matches = Inr whitelist_matches"
| "whitelist_pass cwd root wl (path # paths) whitelist_matches =
     (case os_path_relpath cwd path root of
        Inl e \<Rightarrow> Inl e
      | Inr rel_path \<Rightarrow>
          whitelist_pass cwd root wl paths
            (if any_match rel_path wl then insert path whitelist_matches else whitelist_matches))"

text \<open>Second pass: the membership filter, then the size floor.\<close>

fun filter_pass ::
  "string \<Rightarrow> string \<Rightarrow> int \<Rightarrow> pattern list \<Rightarrow> pattern list \<Rightarrow> bool \<Rightarrow> string set
     \<Rightarrow> index \<Rightarrow> index \<Rightarrow> error + index" where
  "filter_pass cwd root min_size wl bl all_files whitelist_matches [] filtered = Inr filtered"
| "filter_pass cwd root min_size wl bl all_files whitelist_matches ((path, sz) # items) filtered =
     (case os_path_relpath cwd path root of
        Inl e \<Rightarrow> Inl e
      | Inr rel_path \<Rightarrow>
          (let is_whitelisted = (path \<in> whitelist_matches) in
           if wl \<noteq> [] \<and> \<not> is_whitelisted then
             filter_pass cwd root min_size wl bl all_files whitelist_matches items filtered
           else if wl = [] \<and> bl \<noteq> [] \<and> any_match rel_path bl then
             filter_pass cwd root min_size wl bl all_files whitelist_matches items filtered
           else if \<not> all_files \<and> \<not> is_whitelisted \<and> sz < min_size then
             filter_pass cwd root min_size wl bl all_files whitelist_matches items filtered
           else
             filter_pass cwd root min_size wl bl all_files whitelist_matches items
               (AList.update path sz filtered)))"

definition filter_paths ::
  "string \<Rightarrow> index \<Rightarrow> string \<Rightarrow> int \<Rightarrow> int option \<Rightarrow> pattern list \<Rightarrow> pattern list \<Rightarrow> bool
     \<Rightarrow> error + index" where
  "filter_paths cwd sizes root min_size cut_size wl bl all_files =
     (case (if wl \<noteq> [] then whitelist_pass cwd root wl (map fst sizes) {} else Inr {}) of
        Inl e \<Rightarrow> Inl e
      | Inr whitelist_matches \<Rightarrow>
          (case filter_pass cwd root min_size wl bl all_files whitelist_matches sizes [] of
             Inl e \<Rightarrow> Inl e
           | Inr filtered \<Rightarrow>
               Inr (case cut_size of
                      None \<Rightarrow> filtered
                    | Some c \<Rightarrow> filter (\<lambda>(path, sz). c \<le> sz \<or> path \<in> whitelist_matches) filtered)))"

text \<open>
  Whether the root-relative path of \<open>path\<close> matches one of the patterns: the test both
  passes make, used to state what the filter keeps.
\<close>

definition rel_matches :: "string \<Rightarrow> string \<Rightarrow> pattern list \<Rightarrow> string \<Rightarrow> bool" where
  "rel_matches cwd root patterns path =
     (case os_path_relpath cwd path root of Inl e \<Rightarrow> False | Inr rel_path \<Rightarrow> any_match rel_path patterns)"

definition keeps ::
  "string \<Rightarrow> string \<Rightarrow> int \<Rightarrow> int option \<Rightarrow> pattern list \<Rightarrow> pattern list \<Rightarrow> bool
     \<Rightarrow> string \<times> int \<Rightarrow> bool" where
  "keeps cwd root min_size cut_size wl bl all_files entry =
     ((if wl \<noteq> [] then rel_matches cwd root wl (fst entry) else \<not> rel_matches cwd root bl (fst entry))
      \<and> (all_files \<or> rel_matches cwd root wl (fst entry) \<or> min_size \<le> snd entry)
      \<and> (case cut_size of None \<Rightarrow> True
          | Some c \<Rightarrow> c \<le> snd entry \<or> rel_matches cwd root wl (fst entry)))"

text \<open>What the second pass alone keeps, given the set \<^verbatim>\<open>whitelist_matches\<close>.\<close>

definition keep2 ::
  "string \<Rightarrow> string \<Rightarrow> int \<Rightarrow> pattern list \<Rightarrow> pattern list \<Rightarrow> bool \<Rightarrow> string set
     \<Rightarrow> string \<times> int \<Rightarrow> bool" where
  "keep2 cwd root min_size wl bl all_files ms entry =
     ((if wl \<noteq> [] then fst entry \<in> ms else \<not> rel_matches cwd root bl (fst entry))
      \<and> (all_files \<or> fst entry \<in> ms \<or> min_size \<le> snd entry))"

section \<open>The file system\<close>

text \<open>
  \<^verbatim>\<open>walk_directory\<close> reads the file system through \<^verbatim>\<open>os.walk\<close>, \<^verbatim>\<open>os.stat\<close>, \<^verbatim>\<open>os.lstat\<close>,
  \<^verbatim>\<open>os.path.islink\<close>, \<^verbatim>\<open>os.path.exists\<close> and \<^verbatim>\<open>os.scandir\<close>. A snapshot of the tree under
  the scan root is a finite tree of nodes. Each node carries what \<^verbatim>\<open>lstat\<close> reports of it
  (device, inode number, allocated 512-byte blocks). A symbolic link carries in addition
  the node its target resolves to, or nothing when the link dangles or the kernel gives
  up resolving it (too many levels of symbolic links); a cycle of links is therefore the
  finite tree one sees by following it until the kernel refuses. \<open>Unreadable\<close> is a
  directory that cannot be listed, \<open>Denied\<close> an entry on which every \<^verbatim>\<open>stat\<close> fails.
\<close>

datatype attrs = Attrs (dev: nat) (ino: nat) (blocks: nat)

datatype node =
    File attrs
  | Dir attrs "(string \<times> node) list"
  | Unreadable attrs
  | Link attrs "node option"
  | Denied

datatype kind = S_IFREG | S_IFDIR | S_IFLNK

datatype stat_result = Stat (st_mode: kind) (st_dev: nat) (st_ino: nat) (st_blocks: nat)

text \<open>Following links to the node a path finally denotes.\<close>

fun deref :: "node \<Rightarrow> node option" where
  "deref (Link a None) = None"
| "deref (Link a (Some n)) = deref n"
| "deref Denied = None"
| "deref n = Some n"

fun lstat_node :: "node \<Rightarrow> stat_result option" where
  "lstat_node (File a) = Some (Stat S_IFREG (dev a) (ino a) (blocks a))"
| "lstat_node (Dir a es) = Some (Stat S_IFDIR (dev a) (ino a) (blocks a))"
| "lstat_node (Unreadable a) = Some (Stat S_IFDIR (dev a) (ino a) (blocks a))"
| "lstat_node (Link a t) = Some (Stat S_IFLNK (dev a) (ino a) (blocks a))"
| "lstat_node Denied = None"

definition stat_node :: "node \<Rightarrow> stat_result option" where
  "stat_node n = (case deref n of None \<Rightarrow> None | Some m \<Rightarrow> lstat_node m)"

text \<open>\<^verbatim>\<open>entry.is_dir()\<close> follows links and is false when the \<^verbatim>\<open>stat\<close> fails.\<close>

definition is_dir :: "node \<Rightarrow> bool" where
  "is_dir n = (case stat_node n of None \<Rightarrow> False | Some st \<Rightarrow> st_mode st = S_IFDIR)"

definition is_symlink :: "node \<Rightarrow> bool" where
  "is_symlink n = (case lstat_node n of None \<Rightarrow> False | Some st \<Rightarrow> st_mode st = S_IFLNK)"

text \<open>The entries of a directory, through links; nothing when it cannot be listed.\<close>

fun listing :: "node \<Rightarrow> (string \<times> node) list option" where
  "listing (Dir a es) = Some es"
| "listing (Link a (Some n)) = listing n"
| "listing n = None"

text \<open>
  The paths below a directory path, each with its node: a path is built with
  \<^verbatim>\<open>os.path.join\<close>, as \<^verbatim>\<open>os.walk\<close> and \<^verbatim>\<open>os.scandir\<close> build theirs, and path resolution
  goes through links to directories. The empty path denotes nothing.
\<close>

fun subpaths :: "string \<Rightarrow> node \<Rightarrow> (string \<times> node) list" where
  "subpaths p (Dir a es) =
     concat (map (\<lambda>e. (os_path_join p (fst e), snd e) # subpaths (os_path_join p (fst e)) (snd e)) es)"
| "subpaths p (Link a (Some n)) = subpaths p n"
| "subpaths p n = []"

definition path_table :: "node \<Rightarrow> string \<Rightarrow> (string \<times> node) list" where
  "path_table fs root = (if root = [] then [] else (root, fs) # subpaths root fs)"

definition lookup :: "node \<Rightarrow> string \<Rightarrow> string \<Rightarrow> node option" where
  "lookup fs root path = map_of (path_table fs root) path"

definition os_lstat :: "node \<Rightarrow> string \<Rightarrow> string \<Rightarrow> stat_result option" where
  "os_lstat fs root path = (case lookup fs root path of None \<Rightarrow> None | Some n \<Rightarrow> lstat_node n)"

definition os_stat :: "node \<Rightarrow> string \<Rightarrow> string \<Rightarrow> stat_result option" where
  "os_stat fs root path = (case lookup fs root path of None \<Rightarrow> None | Some n \<Rightarrow> stat_node n)"

definition os_path_islink :: "node \<Rightarrow> string \<Rightarrow> string \<Rightarrow> bool" where
  "os_path_islink fs root path =
     (case os_lstat fs root path of None \<Rightarrow> False | Some st \<Rightarrow> st_mode st = S_IFLNK)"

definition os_path_exists :: "node \<Rightarrow> string \<Rightarrow> string \<Rightarrow> bool" where
  "os_path_exists fs root path = (os_stat fs root path \<noteq> None)"

definition os_scandir :: "node \<Rightarrow> string \<Rightarrow> string \<Rightarrow> string list option" where
  "os_scandir fs root path =
     (case lookup fs root path of None \<Rightarrow> None
      | Some n \<Rightarrow> (case listing n of None \<Rightarrow> None | Some es \<Rightarrow> Some (map fst es)))"

text \<open>
  \<^verbatim>\<open>os.walk(top, topdown, followlinks)\<close>: the triples \<^verbatim>\<open>(dirpath, dirnames, filenames)\<close> in
  the order they are yielded. A directory that cannot be listed yields nothing. Top down,
  the loop body may empty \<^verbatim>\<open>dirnames\<close> to keep the walk out of the subdirectories; the
  only such body in \<^verbatim>\<open>da.py\<close> empties the whole list or leaves it alone, and decides from
  \<^verbatim>\<open>dirpath\<close>, which is the parameter \<open>prune\<close>.
\<close>

fun walk_node ::
  "bool \<Rightarrow> bool \<Rightarrow> (string \<Rightarrow> bool) \<Rightarrow> string \<Rightarrow> node \<Rightarrow> (string \<times> string list \<times> string list) list" where
  "walk_node topdown followlinks prune top_dir (Dir a es) =
     (let dirs = map fst (filter (\<lambda>e. is_dir (snd e)) es);
          nondirs = map fst (filter (\<lambda>e. \<not> is_dir (snd e)) es);
          below = concat (map (\<lambda>e. if is_dir (snd e) \<and> (followlinks \<or> \<not> is_symlink (snd e))
                                     then walk_node topdown followlinks prune (os_path_join top_dir (fst e)) (snd e)
                                     else []) es)
      in if topdown then (top_dir, dirs, nondirs) # (if prune top_dir then [] else below)
         else below @ [(top_dir, dirs, nondirs)])"
| "walk_node topdown followlinks prune top_dir (Link a (Some n)) = walk_node topdown followlinks prune top_dir n"
| "walk_node topdown followlinks prune top_dir n = []"

definition os_walk ::
  "node \<Rightarrow> string \<Rightarrow> bool \<Rightarrow> bool \<Rightarrow> (string \<Rightarrow> bool) \<Rightarrow> (string \<times> string list \<times> string list) list" where
  "os_walk fs top_dir topdown followlinks prune =
     (if top_dir = [] then [] else walk_node topdown followlinks prune top_dir fs)"




section \<open>Walking the tree\<close>

text \<open>
  \<^verbatim>\<open>current_depth = dirpath[len(root):].count(os.sep)\<close>
\<close>

definition current_depth :: "string \<Rightarrow> string \<Rightarrow> int" where
  "current_depth root dirpath = int (length (filter (\<lambda>c. c = CHR ''/'') (drop (length root) dirpath)))"

text \<open>
  The whitelist test both loops of \<^verbatim>\<open>walk_directory\<close> make on a directory:
  \<^verbatim>\<open>os.path.relpath\<close> is only called when there are patterns.
\<close>

definition dir_whitelisted :: "string \<Rightarrow> string \<Rightarrow> pattern list \<Rightarrow> string \<Rightarrow> error + bool" where
  "dir_whitelisted cwd root wl dirpath =
     (if wl = [] then Inr False
      else (case os_path_relpath cwd dirpath root of
              Inl e \<Rightarrow> Inl e
            | Inr rel_path \<Rightarrow> Inr (any_match rel_path wl)))"

text \<open>\<^verbatim>\<open>not is_whitelisted and max_depth is not None and current_depth > max_depth\<close>\<close>

definition skipped :: "int option \<Rightarrow> bool \<Rightarrow> int \<Rightarrow> bool" where
  "skipped max_depth is_whitelisted depth =
     (\<not> is_whitelisted \<and> (case max_depth of None \<Rightarrow> False | Some m \<Rightarrow> m < depth))"

subsection \<open>First pass: collecting directories and files top down\<close>

text \<open>
  Whether the first loop empties \<^verbatim>\<open>dirnames\<close> at a directory. Where the whitelist test
  raises, the loop ends, so the value there does not matter.
\<close>

definition first_prune :: "string \<Rightarrow> string \<Rightarrow> int option \<Rightarrow> pattern list \<Rightarrow> string \<Rightarrow> bool" where
  "first_prune cwd root max_depth wl dirpath =
     (case dir_whitelisted cwd root wl dirpath of
        Inl e \<Rightarrow> True
      | Inr is_whitelisted \<Rightarrow> skipped max_depth is_whitelisted (current_depth root dirpath))"

fun first_pass ::
  "string \<Rightarrow> string \<Rightarrow> int option \<Rightarrow> pattern list \<Rightarrow> (string \<times> string list \<times> string list) list
     \<Rightarrow> string list \<times> string list \<Rightarrow> error + string list \<times> string list" where
  "first_pass cwd root max_depth wl [] (dir_paths, file_paths) = Inr (dir_paths, file_paths)"
| "first_pass cwd root max_depth wl ((dirpath, dirnames, filenames) # triples) (dir_paths, file_paths) =
     (case dir_whitelisted cwd root wl dirpath of
        Inl e \<Rightarrow> Inl e
      | Inr is_whitelisted \<Rightarrow>
          if skipped max_depth is_whitelisted (current_depth root dirpath)
          then first_pass cwd root max_depth wl triples (dir_paths, file_paths)
          else first_pass cwd root max_depth wl triples
                 (dir_paths @ [dirpath], file_paths @ map (os_path_join dirpath) filenames))"

subsection \<open>Probing a file\<close>

text \<open>
  \<^verbatim>\<open>os.lstat(p).st_blocks * 512 if os.path.islink(p) and not follow_symlinks else
  os.stat(p).st_blocks * 512\<close>; \<open>None\<close> is the \<open>OSError\<close> of the failing call.
\<close>

definition probe :: "node \<Rightarrow> string \<Rightarrow> bool \<Rightarrow> string \<Rightarrow> int option" where
  "probe fs root follow_symlinks path =
     (case (if os_path_islink fs root path \<and> \<not> follow_symlinks
            then os_lstat fs root path else os_stat fs root path) of
        None \<Rightarrow> None
      | Some st \<Rightarrow> Some (int (st_blocks st) * 512))"

subsection \<open>Parallel strategy\<close>

text \<open>
  The worker pool runs one task per batch of file paths; a task evaluates a dictionary
  comprehension over the paths of its batch that exist, and the results are merged into
  \<^verbatim>\<open>sizes\<close> as the tasks complete. A task that raises loses its whole batch
  (\<^verbatim>\<open>except Exception\<close>). Each path has one value whatever the schedule; the model merges
  the batches in the order of submission.
\<close>

function chunks :: "nat \<Rightarrow> 'a list \<Rightarrow> 'a list list" where
  "chunks n xs = (if n = 0 \<or> xs = [] then [] else take n xs # chunks n (drop n xs))"
  by pat_completeness auto
termination
  by (relation "measure (\<lambda>(n, xs). length xs)") auto

declare chunks.simps [simp del]

fun batch_task :: "node \<Rightarrow> string \<Rightarrow> bool \<Rightarrow> string list \<Rightarrow> index \<Rightarrow> index option" where
  "batch_task fs root follow_symlinks [] result = Some result"
| "batch_task fs root follow_symlinks (path # batch) result =
     (if os_path_exists fs root path then
        (case probe fs root follow_symlinks path of
           None \<Rightarrow> None
         | Some file_size \<Rightarrow> batch_task fs root follow_symlinks batch (AList.update path file_size result))
      else batch_task fs root follow_symlinks batch result)"

text \<open>\<^verbatim>\<open>sizes.update(batch_results)\<close>\<close>

definition dict_update :: "index \<Rightarrow> index \<Rightarrow> index" where
  "dict_update sizes batch_results = foldl (\<lambda>d (k, v). AList.update k v d) sizes batch_results"

fun par_files :: "node \<Rightarrow> string \<Rightarrow> bool \<Rightarrow> string list list \<Rightarrow> index \<Rightarrow> index" where
  "par_files fs root follow_symlinks [] sizes = sizes"
| "par_files fs root follow_symlinks (batch # file_batches) sizes =
     (case batch_task fs root follow_symlinks batch [] of
        None \<Rightarrow> par_files fs root follow_symlinks file_batches sizes
      | Some batch_results \<Rightarrow> par_files fs root follow_symlinks file_batches (dict_update sizes batch_results))"

text \<open>
  The loop over \<^verbatim>\<open>os.scandir(dirpath)\<close> that sums the children already in \<^verbatim>\<open>sizes\<close>.
\<close>

fun sum_children :: "index \<Rightarrow> string \<Rightarrow> string list \<Rightarrow> int \<Rightarrow> int" where
  "sum_children sizes dirpath [] dir_size = dir_size"
| "sum_children sizes dirpath (name # names) dir_size =
     (case map_of sizes (os_path_join dirpath name) of
        None \<Rightarrow> sum_children sizes dirpath names dir_size
      | Some v \<Rightarrow> sum_children sizes dirpath names (dir_size + v))"

text \<open>
  The loop over \<^verbatim>\<open>reversed(dir_paths)\<close>. The state is \<^verbatim>\<open>sizes\<close> and \<^verbatim>\<open>dir_sizes\<close>; the
  latter is written and never read into the result.
\<close>

fun par_dirs :: "node \<Rightarrow> string \<Rightarrow> string list \<Rightarrow> index \<times> index \<Rightarrow> index \<times> index" where
  "par_dirs fs root [] (sizes, dir_sizes) = (sizes, dir_sizes)"
| "par_dirs fs root (dirpath # dir_paths) (sizes, dir_sizes) =
     (let dir_size = (case os_scandir fs root dirpath of
                        None \<Rightarrow> 0
                      | Some names \<Rightarrow> sum_children sizes dirpath names 0);
          dir_sizes1 = AList.update dirpath dir_size dir_sizes;
          sizes1 = AList.update dirpath dir_size sizes;
          dir_sizes2 =
            (if dirpath \<noteq> root then
               (case map_of dir_sizes1 (os_path_dirname dirpath) of
                  None \<Rightarrow> dir_sizes1
                | Some v \<Rightarrow> AList.update (os_path_dirname dirpath) (v + dir_size) dir_sizes1)
             else dir_sizes1)
      in par_dirs fs root dir_paths (sizes1, dir_sizes2))"


definition parallel ::
  "node \<Rightarrow> string \<Rightarrow> bool \<Rightarrow> string list \<Rightarrow> string list \<Rightarrow> index \<Rightarrow> index" where
  "parallel fs root follow_symlinks dir_paths file_paths sizes =
     (let batch_size = (if 1000 < length file_paths then 500 else 100);
          file_batches = chunks batch_size file_paths;
          sizes1 = par_files fs root follow_symlinks file_batches sizes
      in fst (par_dirs fs root (rev dir_paths) (sizes1, [])))"

subsection \<open>Sequential strategy\<close>

text \<open>
  The loop over \<^verbatim>\<open>filenames\<close> of one directory; the state is \<^verbatim>\<open>dir_size\<close> and \<^verbatim>\<open>sizes\<close>.
  A failing probe is caught and the file skipped.
\<close>

fun seq_files ::
  "node \<Rightarrow> string \<Rightarrow> bool \<Rightarrow> int option \<Rightarrow> bool \<Rightarrow> string \<Rightarrow> string list
     \<Rightarrow> int \<times> index \<Rightarrow> int \<times> index" where
  "seq_files fs root follow_symlinks max_depth is_whitelisted dirpath [] (dir_size, sizes) = (dir_size, sizes)"
| "seq_files fs root follow_symlinks max_depth is_whitelisted dirpath (filename # filenames) (dir_size, sizes) =
     (let file_path = os_path_join dirpath filename in
      case probe fs root follow_symlinks file_path of
        None \<Rightarrow> seq_files fs root follow_symlinks max_depth is_whitelisted dirpath filenames (dir_size, sizes)
      | Some file_size \<Rightarrow>
          seq_files fs root follow_symlinks max_depth is_whitelisted dirpath filenames
            (dir_size + file_size,
             if (case max_depth of None \<Rightarrow> True | Some m \<Rightarrow> current_depth root dirpath \<le> m)
                \<or> is_whitelisted
             then AList.update file_path file_size sizes else sizes))"

text \<open>
  The body of the loop over \<^verbatim>\<open>os.walk(root, topdown=False)\<close> for a directory that is
  not skipped: the files are probed, the directory gets the sum, and the sum is added to
  the parent's entry if the parent has one by now.
\<close>

definition seq_step ::
  "node \<Rightarrow> string \<Rightarrow> bool \<Rightarrow> int option \<Rightarrow> bool \<Rightarrow> string \<Rightarrow> string list \<Rightarrow> index \<Rightarrow> index" where
  "seq_step fs root follow_symlinks max_depth is_whitelisted dirpath filenames sizes =
     (let (dir_size, sizes1) =
            seq_files fs root follow_symlinks max_depth is_whitelisted dirpath filenames (0, sizes);
          sizes2 = AList.update dirpath dir_size sizes1
      in if dirpath \<noteq> root then
           (case map_of sizes2 (os_path_dirname dirpath) of
              None \<Rightarrow> sizes2
            | Some v \<Rightarrow> AList.update (os_path_dirname dirpath) (v + dir_size) sizes2)
         else sizes2)"

fun sequential ::
  "string \<Rightarrow> node \<Rightarrow> string \<Rightarrow> bool \<Rightarrow> int option \<Rightarrow> pattern list
     \<Rightarrow> (string \<times> string list \<times> string list) list \<Rightarrow> index \<Rightarrow> error + index" where
  "sequential cwd fs root follow_symlinks max_depth wl [] sizes = Inr sizes"
| "sequential cwd fs root follow_symlinks max_depth wl ((dirpath, dirnames, filenames) # triples) sizes =
     (case dir_whitelisted cwd root wl dirpath of
        Inl e \<Rightarrow> Inl e
      | Inr is_whitelisted \<Rightarrow>
          if skipped max_depth is_whitelisted (current_depth root dirpath)
          then sequential cwd fs root follow_symlinks max_depth wl triples sizes
          else sequential cwd fs root follow_symlinks max_depth wl triples
                 (seq_step fs root follow_symlinks max_depth is_whitelisted dirpath filenames sizes))"

subsection \<open>\<^verbatim>\<open>walk_directory\<close>\<close>

text \<open>
  \<^verbatim>\<open>root_dev = os.stat(root).st_dev if one_filesystem else None\<close> is evaluated, so a
  failing \<^verbatim>\<open>stat\<close> of the root raises there; \<^verbatim>\<open>root_dev\<close> and \<^verbatim>\<open>visited_inodes\<close> are not used
  afterwards. The first pass runs in both modes; \<open>aggregate\<close> is the function after the
  two walks are taken. The arguments \<^verbatim>\<open>min_size\<close> and
  \<^verbatim>\<open>all_files\<close> are not read, \<^verbatim>\<open>show_progress\<close> only writes to the error stream, and the
  size of the worker pool does not reach the result.
\<close>

definition aggregate ::
  "string \<Rightarrow> node \<Rightarrow> string \<Rightarrow> int option \<Rightarrow> bool \<Rightarrow> pattern list \<Rightarrow> bool
     \<Rightarrow> (string \<times> string list \<times> string list) list \<Rightarrow> (string \<times> string list \<times> string list) list
     \<Rightarrow> error + index" where
  "aggregate cwd fs root max_depth follow_symlinks wl use_parallel top_down bottom_up =
     (case first_pass cwd root max_depth wl top_down ([], []) of
        Inl e \<Rightarrow> Inl e
      | Inr (dir_paths, file_paths) \<Rightarrow>
          if use_parallel
          then Inr (parallel fs root follow_symlinks dir_paths file_paths [(root, 0)])
          else sequential cwd fs root follow_symlinks max_depth wl bottom_up [(root, 0)])"

definition walk_directory ::
  "string \<Rightarrow> node \<Rightarrow> string \<Rightarrow> int option \<Rightarrow> bool \<Rightarrow> bool \<Rightarrow> pattern list \<Rightarrow> bool \<Rightarrow> error + index" where
  "walk_directory cwd fs root max_depth follow_symlinks one_filesystem wl use_parallel =
     (if one_filesystem \<and> os_stat fs root root = None then Inl OSError
      else aggregate cwd fs root max_depth follow_symlinks wl use_parallel
             (os_walk fs root True follow_symlinks (first_prune cwd root max_depth wl))
             (os_walk fs root False follow_symlinks (\<lambda>dirpath. False)))"


subsection \<open>\<^verbatim>\<open>should_follow_link\<close>\<close>

text \<open>
  The function returns its verdict and the updated \<^verbatim>\<open>visited_inodes\<close>. Every \<open>OSError\<close>
  inside is caught and gives \<open>False\<close>; \<open>TraversalError\<close> is not an \<open>OSError\<close> and leaves
  the function. The pair recorded is taken from the \<^verbatim>\<open>lstat\<close> of the path.
\<close>

definition should_follow_link ::
  "node \<Rightarrow> string \<Rightarrow> string \<Rightarrow> bool \<Rightarrow> bool \<Rightarrow> (nat \<times> nat) set \<Rightarrow> error + bool \<times> (nat \<times> nat) set" where
  "should_follow_link fs root path follow_symlinks one_filesystem visited_inodes =
     (if \<not> follow_symlinks then Inr (False, visited_inodes)
      else
        (case os_lstat fs root path of
           None \<Rightarrow> Inr (False, visited_inodes)
         | Some stat_info \<Rightarrow>
             if st_mode stat_info \<noteq> S_IFLNK then Inr (False, visited_inodes)
             else if one_filesystem \<and>
                     (case os_stat fs root path of
                        None \<Rightarrow> True
                      | Some target_stat \<Rightarrow>
                          (case os_stat fs root (os_path_dirname path) of
                             None \<Rightarrow> True
                           | Some parent_stat \<Rightarrow> st_dev target_stat \<noteq> st_dev parent_stat))
             then Inr (False, visited_inodes)
             else
               (let inode = (st_dev stat_info, st_ino stat_info) in
                if inode \<in> visited_inodes then Inl TraversalError
                else Inr (True, insert inode visited_inodes))))"

section \<open>Example snapshots\<close>

text \<open>
  A root directory with one subdirectory that holds one file; every entry is allocated
  eight blocks.
\<close>

definition nested_tree :: node where
  "nested_tree = Dir (Attrs 1 10 8) [(''sub'', Dir (Attrs 1 11 8) [(''f'', File (Attrs 1 12 8))])]"

text \<open>A root directory on device 1 with a directory \<open>mnt\<close> on device 2 mounted in it.\<close>

definition mount_tree :: node where
  "mount_tree =
     Dir (Attrs 1 10 8)
       [(''a'', File (Attrs 1 11 8)),
        (''mnt'', Dir (Attrs 2 2 8) [(''g'', File (Attrs 2 3 8))])]"

text \<open>
  A cycle of two links: \<open>d1/A\<close> points to \<open>d2\<close> and \<open>d2/B\<close> points to \<open>d1\<close>. What path
  resolution shows of it is the alternation of the two directories, down to the link at
  which the kernel stops (\<open>ELOOP\<close>); \<open>cycle n first\<close> is the directory \<open>d1\<close> (or \<open>d2\<close>)
  with \<open>n\<close> more links that can be followed below it. The kernel follows at most 40.
\<close>

fun cycle :: "nat \<Rightarrow> bool \<Rightarrow> node" where
  "cycle 0 first =
     (if first then Dir (Attrs 1 11 8) [(''A'', Link (Attrs 1 21 0) None)]
      else Dir (Attrs 1 12 8) [(''B'', Link (Attrs 1 22 0) None)])"
| "cycle (Suc n) first =
     (if first then Dir (Attrs 1 11 8) [(''A'', Link (Attrs 1 21 0) (Some (cycle n False)))]
      else Dir (Attrs 1 12 8) [(''B'', Link (Attrs 1 22 0) (Some (cycle n True)))])"

definition cycle_tree :: node where
  "cycle_tree = Dir (Attrs 1 10 8) [(''d1'', cycle 40 True), (''d2'', cycle 40 False)]"

text \<open>
  A tree five levels deep: the directory \<open>a/b/c/d\<close> holds the file \<open>e.log\<close> and the
  directory \<open>keep\<close>, which holds the file \<open>x\<close>.
\<close>

definition deep_tree :: node where
  "deep_tree =
     Dir (Attrs 1 10 8)
       [(''a'', Dir (Attrs 1 11 8)
          [(''b'', Dir (Attrs 1 12 8)
             [(''c'', Dir (Attrs 1 13 8)
                [(''d'', Dir (Attrs 1 14 8)
                   [(''e.log'', File (Attrs 1 15 8)),
                    (''keep'', Dir (Attrs 1 16 8) [(''x'', File (Attrs 1 17 16))])])])])])]"


text \<open>The size an index gives to a path; nothing when the walk raised.\<close>

definition size_at :: "error + index \<Rightarrow> string \<Rightarrow> int option" where
  "size_at result path = (case result of Inl e \<Rightarrow> None | Inr sizes \<Rightarrow> map_of sizes path)"

section \<open>Properties of the pattern matcher and of the filter\<close>

lemma glob_match_Star: "glob_match (Star # items) s \<longleftrightarrow> (\<exists>pre suf. s = pre @ suf \<and> glob_match items suf)"
proof (induction s)
  case Nil
  then show ?case by simp
next
  case (Cons c cs)
  show ?case
  proof
    assume "glob_match (Star # items) (c # cs)"
    then consider "glob_match items (c # cs)" | "glob_match (Star # items) cs" by auto
    then show "\<exists>pre suf. c # cs = pre @ suf \<and> glob_match items suf"
    proof cases
      case 1
      then have "c # cs = [] @ (c # cs) \<and> glob_match items (c # cs)" by simp
      then show ?thesis by blast
    next
      case 2
      with Cons.IH obtain pre suf where "cs = pre @ suf" "glob_match items suf" by blast
      then have "c # cs = (c # pre) @ suf \<and> glob_match items suf" by simp
      then show ?thesis by blast
    qed
  next
    assume "\<exists>pre suf. c # cs = pre @ suf \<and> glob_match items suf"
    then obtain pre suf where ps: "c # cs = pre @ suf" "glob_match items suf" by blast
    show "glob_match (Star # items) (c # cs)"
    proof (cases pre)
      case Nil
      with ps have "glob_match items (c # cs)" by simp
      then show ?thesis by simp
    next
      case (Cons a pre')
      with ps have "cs = pre' @ suf" by simp
      with ps(2) Cons.IH have "glob_match (Star # items) cs" by blast
      then show ?thesis by simp
    qed
  qed
qed

lemma glob_match_Lit: "glob_match (Lit a # items) s \<longleftrightarrow> (\<exists>cs. s = a # cs \<and> glob_match items cs)"
  by (cases s) auto

lemma translate_star_slash: "translate (''*/'' @ pat) = Star # Lit CHR ''/'' # translate pat"
  by simp

lemma fnmatch_star_slash:
  "fnmatch path (''*/'' @ pat) \<longleftrightarrow> (\<exists>pre suf. path = pre @ ''/'' @ suf \<and> fnmatch suf pat)"
  unfolding fnmatch_def translate_star_slash glob_match_Star glob_match_Lit by auto


lemma update_fresh: "k \<notin> fst ` set al \<Longrightarrow> AList.update k v al = al @ [(k, v)]"
  by (induction al) auto

lemma whitelist_pass_ok:
  "[] \<notin> set paths \<Longrightarrow>
   whitelist_pass cwd root wl paths ms = Inr (ms \<union> {p \<in> set paths. rel_matches cwd root wl p})"
proof (induction paths arbitrary: ms)
  case Nil
  then show ?case by simp
next
  case (Cons p ps)
  then obtain r where r: "os_path_relpath cwd p root = Inr r"
    by (auto simp: os_path_relpath_def Let_def)
  with Cons show ?case by (auto simp: rel_matches_def)
qed

lemma whitelist_pass_Inr:
  "whitelist_pass cwd root wl paths ms = Inr out \<Longrightarrow> [] \<notin> set paths"
proof (induction paths arbitrary: ms)
  case Nil
  then show ?case by simp
next
  case (Cons p ps)
  then show ?case by (auto simp: os_path_relpath_def split: sum.splits if_splits)
qed

lemma filter_pass_Inr:
  "filter_pass cwd root min_size wl bl all_files ms items filtered = Inr out \<Longrightarrow> [] \<notin> fst ` set items"
proof (induction items arbitrary: filtered)
  case Nil
  then show ?case by simp
next
  case (Cons it items)
  obtain p s where it: "it = (p, s)" by (cases it)
  from Cons.prems have "p \<noteq> []"
    by (auto simp: it os_path_relpath_def split: sum.splits if_splits)
  moreover from Cons.prems obtain f' where
    "filter_pass cwd root min_size wl bl all_files ms items f' = Inr out"
    by (auto simp: it Let_def split: sum.splits if_splits)
  ultimately show ?case using Cons.IH by (auto simp: it)
qed

lemma any_match_Nil_rel: "\<not> rel_matches cwd root [] p"
  by (simp add: rel_matches_def split: sum.splits)

lemma filter_pass_step:
  assumes "os_path_relpath cwd p root = Inr r"
  shows "filter_pass cwd root min_size wl bl all_files ms ((p, s) # items) filtered =
     (if keep2 cwd root min_size wl bl all_files ms (p, s)
      then filter_pass cwd root min_size wl bl all_files ms items (AList.update p s filtered)
      else filter_pass cwd root min_size wl bl all_files ms items filtered)"
proof -
  have rm: "rel_matches cwd root bl p = any_match r bl" by (simp add: rel_matches_def assms)
  show ?thesis
  proof (cases "wl = []")
    case True
    then show ?thesis
      by (cases "bl = []") (simp_all add: assms keep2_def rm any_match_Nil_rel Let_def)
  next
    case False
    then show ?thesis by (simp add: assms keep2_def Let_def)
  qed
qed

lemma filter_pass_ok:
  "[] \<notin> fst ` set items \<Longrightarrow> distinct (map fst items) \<Longrightarrow> fst ` set items \<inter> fst ` set filtered = {} \<Longrightarrow>
   filter_pass cwd root min_size wl bl all_files ms items filtered =
     Inr (filtered @ filter (keep2 cwd root min_size wl bl all_files ms) items)"
proof (induction items arbitrary: filtered)
  case Nil
  then show ?case by simp
next
  case (Cons it items)
  obtain p s where it: "it = (p, s)" by (cases it)
  from Cons.prems have pne: "p \<noteq> []" by (auto simp: it)
  then obtain r where r: "os_path_relpath cwd p root = Inr r"
    by (auto simp: os_path_relpath_def Let_def)
  from Cons.prems have fresh: "p \<notin> fst ` set filtered" by (auto simp: it)
  from Cons.prems have d: "[] \<notin> fst ` set items" "distinct (map fst items)" by (auto simp: it)
  have disj1: "fst ` set items \<inter> fst ` set filtered = {}" using Cons.prems by auto
  have disj2: "fst ` set items \<inter> fst ` set (filtered @ [(p, s)]) = {}"
    using Cons.prems by (auto simp: it)
  show ?case
    unfolding it filter_pass_step[OF r] update_fresh[OF fresh]
    using Cons.IH[OF d disj1] Cons.IH[OF d disj2] by simp
qed

lemma filter_paths_char:
  assumes "distinct (map fst sizes)" and "[] \<notin> fst ` set sizes"
  shows "filter_paths cwd sizes root min_size cut_size wl bl all_files =
           Inr (filter (keeps cwd root min_size cut_size wl bl all_files) sizes)"
proof -
  define ms where "ms = (if wl \<noteq> [] then {p \<in> set (map fst sizes). rel_matches cwd root wl p} else {})"
  have wp: "(if wl \<noteq> [] then whitelist_pass cwd root wl (map fst sizes) {} else Inr {}) = Inr ms"
    using assms(2) by (simp add: ms_def whitelist_pass_ok)
  have fp: "filter_pass cwd root min_size wl bl all_files ms sizes [] =
              Inr (filter (keep2 cwd root min_size wl bl all_files ms) sizes)"
    using filter_pass_ok[OF assms(2) assms(1), of "[]"] by simp
  have mem: "\<And>p s. (p, s) \<in> set sizes \<Longrightarrow> p \<in> ms \<longleftrightarrow> rel_matches cwd root wl p"
    by (force simp: ms_def any_match_Nil_rel)
  have "filter (\<lambda>(path, sz). (case cut_size of None \<Rightarrow> True | Some c \<Rightarrow> c \<le> sz \<or> path \<in> ms))
           (filter (keep2 cwd root min_size wl bl all_files ms) sizes)
        = filter (keeps cwd root min_size cut_size wl bl all_files) sizes"
    unfolding filter_filter
    by (rule filter_cong) (auto simp: keeps_def keep2_def mem split: option.splits)
  then show ?thesis
    by (cases cut_size) (simp_all add: filter_paths_def wp fp case_prod_beta)
qed

section \<open>Properties of the walk\<close>

subsection \<open>The walk returns an index\<close>

lemma join_nonempty: "a \<noteq> [] \<Longrightarrow> os_path_join a b \<noteq> []"
  by (auto simp: os_path_join_def startswith_def)

lemma walk_node_nonempty:
  "top_dir \<noteq> [] \<Longrightarrow> (d, ds, fns) \<in> set (walk_node topdown followlinks prune top_dir n) \<Longrightarrow> d \<noteq> []"
proof (induction topdown followlinks prune top_dir n arbitrary: d ds fns rule: walk_node.induct)
  case (1 topdown followlinks prune top_dir a es)
  from "1.prems"(2) consider "d = top_dir"
    | e where "e \<in> set es" "is_dir (snd e) \<and> (followlinks \<or> \<not> is_symlink (snd e))"
        "(d, ds, fns) \<in> set (walk_node topdown followlinks prune (os_path_join top_dir (fst e)) (snd e))"
    by (auto simp: Let_def split: if_splits)
  then show ?case
  proof cases
    case 1
    with "1.prems" show ?thesis by simp
  next
    case 2
    then show ?thesis using "1.IH"[OF refl refl 2(1) 2(2) _ 2(3)] "1.prems"(1) join_nonempty by blast
  qed
qed auto

lemma os_walk_nonempty:
  "(d, ds, fns) \<in> set (os_walk fs root topdown followlinks prune) \<Longrightarrow> d \<noteq> []"
  by (auto simp: os_walk_def dest: walk_node_nonempty split: if_splits)

lemma dir_whitelisted_Inr: "d \<noteq> [] \<Longrightarrow> \<exists>w. dir_whitelisted cwd root wl d = Inr w"
  by (auto simp: dir_whitelisted_def os_path_relpath_def Let_def)

lemma first_pass_Inr:
  "\<forall>t \<in> set triples. fst t \<noteq> [] \<Longrightarrow> \<exists>r. first_pass cwd root max_depth wl triples acc = Inr r"
proof (induction triples arbitrary: acc)
  case Nil
  then show ?case by (cases acc) simp
next
  case (Cons t triples)
  obtain d ds fns where t: "t = (d, ds, fns)" by (cases t)
  obtain dp fp where acc: "acc = (dp, fp)" by (cases acc)
  from Cons.prems have "d \<noteq> []" by (simp add: t)
  then obtain w where w: "dir_whitelisted cwd root wl d = Inr w" using dir_whitelisted_Inr by blast
  from Cons.prems have "\<forall>t \<in> set triples. fst t \<noteq> []" by simp
  then show ?case using Cons.IH by (simp add: t acc w)
qed

lemma sequential_Inr:
  "\<forall>t \<in> set triples. fst t \<noteq> [] \<Longrightarrow> \<exists>r. sequential cwd fs root follow max_depth wl triples sizes = Inr r"
proof (induction triples arbitrary: sizes)
  case Nil
  then show ?case by simp
next
  case (Cons t triples)
  obtain d ds fns where t: "t = (d, ds, fns)" by (cases t)
  from Cons.prems have "d \<noteq> []" by (simp add: t)
  then obtain w where w: "dir_whitelisted cwd root wl d = Inr w" using dir_whitelisted_Inr by blast
  from Cons.prems have "\<forall>t \<in> set triples. fst t \<noteq> []" by simp
  then show ?case using Cons.IH by (simp add: t w)
qed

lemma walk_directory_Inr:
  assumes "one_filesystem \<longrightarrow> os_stat fs root root \<noteq> None"
  shows "\<exists>sizes. walk_directory cwd fs root max_depth follow one_filesystem wl use_parallel = Inr sizes"
proof -
  have a: "\<forall>t \<in> set (os_walk fs root td follow prune). fst t \<noteq> []" for td prune
    using os_walk_nonempty by fastforce
  obtain dp fp where fp: "first_pass cwd root max_depth wl
           (os_walk fs root True follow (first_prune cwd root max_depth wl)) ([], []) = Inr (dp, fp)"
    using first_pass_Inr[OF a] by (metis surj_pair)
  show ?thesis using assms sequential_Inr[OF a]
    by (auto simp: walk_directory_def aggregate_def fp)
qed

subsection \<open>Files whose probe fails have no effect\<close>



















subsection \<open>The keys of the index\<close>

lemma seq_files_keys:
  "seq_files fs root follow max_depth w d fns (n, sizes) = (n', sizes') \<Longrightarrow>
   k \<in> fst ` set sizes' \<Longrightarrow>
   k \<in> fst ` set sizes \<or> (\<exists>f \<in> set fns. k = os_path_join d f \<and> probe fs root follow k \<noteq> None)"
proof (induction fns arbitrary: n sizes)
  case Nil
  then show ?case by simp
next
  case (Cons f fns)
  show ?case
  proof (cases "probe fs root follow (os_path_join d f)")
    case None
    with Cons.prems(1) have "seq_files fs root follow max_depth w d fns (n, sizes) = (n', sizes')"
      by simp
    from Cons.IH[OF this Cons.prems(2)] show ?thesis by auto
  next
    case (Some v)
    define s1 where "s1 = (if (case max_depth of None \<Rightarrow> True | Some m \<Rightarrow> current_depth root d \<le> m) \<or> w
                           then AList.update (os_path_join d f) v sizes else sizes)"
    from Cons.prems(1) Some have "seq_files fs root follow max_depth w d fns (n + v, s1) = (n', sizes')"
      by (simp add: s1_def Let_def)
    from Cons.IH[OF this Cons.prems(2)] consider "k \<in> fst ` set s1"
      | "\<exists>f \<in> set fns. k = os_path_join d f \<and> probe fs root follow k \<noteq> None" by blast
    then show ?thesis
    proof cases
      case 1
      have "fst ` set s1 \<subseteq> insert (os_path_join d f) (fst ` set sizes)"
        by (simp add: s1_def dom_update subset_insertI)
      with 1 have "k = os_path_join d f \<or> k \<in> fst ` set sizes" by blast
      then show ?thesis using Some by auto
    next
      case 2
      then show ?thesis by auto
    qed
  qed
qed

lemma seq_files_mono:
  "seq_files fs root follow max_depth w d fns (n, sizes) = (n', sizes') \<Longrightarrow>
   fst ` set sizes \<subseteq> fst ` set sizes'"
proof (induction fns arbitrary: n sizes)
  case Nil
  then show ?case by simp
next
  case (Cons f fns)
  show ?case
  proof (cases "probe fs root follow (os_path_join d f)")
    case None
    with Cons.prems have "seq_files fs root follow max_depth w d fns (n, sizes) = (n', sizes')"
      by simp
    from Cons.IH[OF this] show ?thesis .
  next
    case (Some v)
    define s1 where "s1 = (if (case max_depth of None \<Rightarrow> True | Some m \<Rightarrow> current_depth root d \<le> m) \<or> w
                           then AList.update (os_path_join d f) v sizes else sizes)"
    from Cons.prems Some have "seq_files fs root follow max_depth w d fns (n + v, s1) = (n', sizes')"
      by (simp add: s1_def Let_def)
    from Cons.IH[OF this] have "fst ` set s1 \<subseteq> fst ` set sizes'" .
    moreover have "fst ` set sizes \<subseteq> fst ` set s1" by (auto simp: s1_def dom_update)
    ultimately show ?thesis by blast
  qed
qed

lemma seq_files_records:
  "seq_files fs root follow max_depth w d fns (n, sizes) = (n', sizes') \<Longrightarrow>
   \<not> skipped max_depth w (current_depth root d) \<Longrightarrow>
   f \<in> set fns \<Longrightarrow> probe fs root follow (os_path_join d f) \<noteq> None \<Longrightarrow>
   os_path_join d f \<in> fst ` set sizes'"
proof (induction fns arbitrary: n sizes)
  case Nil
  then show ?case by simp
next
  case (Cons g fns)
  show ?case
  proof (cases "probe fs root follow (os_path_join d g)")
    case None
    with Cons.prems have "seq_files fs root follow max_depth w d fns (n, sizes) = (n', sizes')"
      and "f \<in> set fns" by auto
    then show ?thesis using Cons.IH Cons.prems(2,4) by blast
  next
    case (Some v)
    from Cons.prems(2) have rec: "(case max_depth of None \<Rightarrow> True | Some m \<Rightarrow> current_depth root d \<le> m) \<or> w"
      by (auto simp: skipped_def split: option.splits)
    with Cons.prems Some have st: "seq_files fs root follow max_depth w d fns
        (n + v, AList.update (os_path_join d g) v sizes) = (n', sizes')"
      by (simp add: Let_def)
    show ?thesis
    proof (cases "f = g")
      case True
      have "os_path_join d g \<in> fst ` set (AList.update (os_path_join d g) v sizes)"
        by (simp add: dom_update)
      with seq_files_mono[OF st] True show ?thesis by blast
    next
      case False
      with Cons.prems have "f \<in> set fns" by simp
      then show ?thesis using Cons.IH[OF st] Cons.prems(2,4) by blast
    qed
  qed
qed

lemma sequential_Cons:
  "dir_whitelisted cwd root wl d = Inr w \<Longrightarrow>
   sequential cwd fs root follow max_depth wl ((d, ds, fns) # triples) sizes =
     (if skipped max_depth w (current_depth root d)
      then sequential cwd fs root follow max_depth wl triples sizes
      else sequential cwd fs root follow max_depth wl triples (seq_step fs root follow max_depth w d fns sizes))"
  by simp

lemma map_of_Some_key: "map_of al k = Some v \<Longrightarrow> k \<in> fst ` set al"
  by (cases "k \<in> fst ` set al") (simp_all add: map_of_eq_None_iff[symmetric])

lemma parent_update_keys:
  "fst ` set (case map_of al k of None \<Rightarrow> al | Some v \<Rightarrow> AList.update k (g v) al) = fst ` set al"
  by (auto simp: dom_update split: option.splits dest: map_of_Some_key)

lemma seq_step_key_set:
  "seq_files fs root follow max_depth w d fns (0, sizes) = (n, s1) \<Longrightarrow>
   fst ` set (seq_step fs root follow max_depth w d fns sizes) = insert d (fst ` set s1)"
  using parent_update_keys[of "AList.update d n s1" "os_path_dirname d" "\<lambda>v. v + n"]
  by (simp add: seq_step_def Let_def dom_update)

lemma seq_step_keys:
  assumes "k \<in> fst ` set (seq_step fs root follow max_depth w d fns sizes)"
  shows "k = d \<or> k \<in> fst ` set sizes
         \<or> (\<exists>f \<in> set fns. k = os_path_join d f \<and> probe fs root follow k \<noteq> None)"
proof -
  obtain n s1 where sf: "seq_files fs root follow max_depth w d fns (0, sizes) = (n, s1)"
    by (cases "seq_files fs root follow max_depth w d fns (0, sizes)")
  have "fst ` set (seq_step fs root follow max_depth w d fns sizes) = insert d (fst ` set s1)"
    by (rule seq_step_key_set[OF sf])
  with assms have "k = d \<or> k \<in> fst ` set s1" by simp
  with seq_files_keys[OF sf, of k] show ?thesis by blast
qed

lemma seq_step_mono:
  "insert d (fst ` set sizes) \<subseteq> fst ` set (seq_step fs root follow max_depth w d fns sizes)"
proof -
  obtain n s1 where sf: "seq_files fs root follow max_depth w d fns (0, sizes) = (n, s1)"
    by (cases "seq_files fs root follow max_depth w d fns (0, sizes)")
  have "fst ` set (seq_step fs root follow max_depth w d fns sizes) = insert d (fst ` set s1)"
    by (rule seq_step_key_set[OF sf])
  with seq_files_mono[OF sf] show ?thesis by blast
qed

lemma seq_step_records:
  assumes "\<not> skipped max_depth w (current_depth root d)" "f \<in> set fns"
    "probe fs root follow (os_path_join d f) \<noteq> None"
  shows "os_path_join d f \<in> fst ` set (seq_step fs root follow max_depth w d fns sizes)"
proof -
  obtain n s1 where sf: "seq_files fs root follow max_depth w d fns (0, sizes) = (n, s1)"
    by (cases "seq_files fs root follow max_depth w d fns (0, sizes)")
  have "fst ` set (seq_step fs root follow max_depth w d fns sizes) = insert d (fst ` set s1)"
    by (rule seq_step_key_set[OF sf])
  with seq_files_records[OF sf assms] show ?thesis by blast
qed

lemma seq_files_distinct:
  "seq_files fs root follow max_depth w d fns (n, sizes) = (n', sizes') \<Longrightarrow>
   distinct (map fst sizes) \<Longrightarrow> distinct (map fst sizes')"
proof (induction fns arbitrary: n sizes)
  case Nil
  then show ?case by simp
next
  case (Cons f fns)
  show ?case
  proof (cases "probe fs root follow (os_path_join d f)")
    case None
    with Cons.prems Cons.IH show ?thesis by simp
  next
    case (Some v)
    define s1 where "s1 = (if (case max_depth of None \<Rightarrow> True | Some m \<Rightarrow> current_depth root d \<le> m) \<or> w
                           then AList.update (os_path_join d f) v sizes else sizes)"
    from Cons.prems Some have "seq_files fs root follow max_depth w d fns (n + v, s1) = (n', sizes')"
      by (simp add: s1_def Let_def)
    moreover from Cons.prems(2) have "distinct (map fst s1)" by (simp add: s1_def distinct_update)
    ultimately show ?thesis by (rule Cons.IH)
  qed
qed

lemma seq_step_distinct:
  assumes "distinct (map fst sizes)"
  shows "distinct (map fst (seq_step fs root follow max_depth w d fns sizes))"
proof -
  obtain n s1 where sf: "seq_files fs root follow max_depth w d fns (0, sizes) = (n, s1)"
    by (cases "seq_files fs root follow max_depth w d fns (0, sizes)")
  from seq_files_distinct[OF sf assms] show ?thesis
    by (simp add: seq_step_def sf Let_def distinct_update split: option.splits)
qed

lemma sequential_head:
  assumes "sequential cwd fs root follow max_depth wl ((d, ds, fns) # triples) sizes = Inr out"
  shows "\<exists>w. dir_whitelisted cwd root wl d = Inr w \<and>
           sequential cwd fs root follow max_depth wl triples
             (if skipped max_depth w (current_depth root d) then sizes
              else seq_step fs root follow max_depth w d fns sizes) = Inr out"
proof (cases "dir_whitelisted cwd root wl d")
  case (Inl e)
  with assms show ?thesis by simp
next
  case (Inr w)
  with assms show ?thesis by (simp split: if_splits)
qed

lemma sequential_mono:
  "sequential cwd fs root follow max_depth wl triples sizes = Inr out \<Longrightarrow>
   fst ` set sizes \<subseteq> fst ` set out"
proof (induction triples arbitrary: sizes)
  case Nil
  then show ?case by simp
next
  case (Cons t triples)
  obtain d ds fns where t: "t = (d, ds, fns)" by (cases t)
  from sequential_head[OF Cons.prems[unfolded t]] obtain w where
    run: "sequential cwd fs root follow max_depth wl triples
             (if skipped max_depth w (current_depth root d) then sizes
              else seq_step fs root follow max_depth w d fns sizes) = Inr out" by blast
  show ?case
  proof (cases "skipped max_depth w (current_depth root d)")
    case True
    with run have "sequential cwd fs root follow max_depth wl triples sizes = Inr out" by simp
    then show ?thesis by (rule Cons.IH)
  next
    case False
    with run have "sequential cwd fs root follow max_depth wl triples
        (seq_step fs root follow max_depth w d fns sizes) = Inr out" by simp
    then have "fst ` set (seq_step fs root follow max_depth w d fns sizes) \<subseteq> fst ` set out"
      by (rule Cons.IH)
    moreover have "fst ` set sizes \<subseteq> fst ` set (seq_step fs root follow max_depth w d fns sizes)"
      using seq_step_mono[of d sizes fs root follow max_depth w fns] by simp
    ultimately show ?thesis by (rule order_trans[rotated])
  qed
qed

lemma sequential_distinct:
  "sequential cwd fs root follow max_depth wl triples sizes = Inr out \<Longrightarrow>
   distinct (map fst sizes) \<Longrightarrow> distinct (map fst out)"
proof (induction triples arbitrary: sizes)
  case Nil
  then show ?case by simp
next
  case (Cons t triples)
  obtain d ds fns where t: "t = (d, ds, fns)" by (cases t)
  from sequential_head[OF Cons.prems(1)[unfolded t]] obtain w where
    run: "sequential cwd fs root follow max_depth wl triples
             (if skipped max_depth w (current_depth root d) then sizes
              else seq_step fs root follow max_depth w d fns sizes) = Inr out" by blast
  have "distinct (map fst (if skipped max_depth w (current_depth root d) then sizes
              else seq_step fs root follow max_depth w d fns sizes))"
    using Cons.prems(2) seq_step_distinct[OF Cons.prems(2)] by simp
  with run show ?case by (rule Cons.IH)
qed


lemma sequential_keys:
  "sequential cwd fs root follow max_depth wl triples sizes = Inr out \<Longrightarrow>
   k \<in> fst ` set out \<Longrightarrow>
   k \<in> fst ` set sizes \<or> k \<in> fst ` set triples
   \<or> (\<exists>t \<in> set triples. \<exists>f \<in> set (snd (snd t)).
          k = os_path_join (fst t) f \<and> probe fs root follow k \<noteq> None)"
proof (induction triples arbitrary: sizes)
  case Nil
  then show ?case by simp
next
  case (Cons t triples)
  obtain d ds fns where t: "t = (d, ds, fns)" by (cases t)
  from sequential_head[OF Cons.prems(1)[unfolded t]] obtain w where
    run: "sequential cwd fs root follow max_depth wl triples
             (if skipped max_depth w (current_depth root d) then sizes
              else seq_step fs root follow max_depth w d fns sizes) = Inr out" by blast
  define rest where "rest \<longleftrightarrow> k \<in> fst ` set triples
   \<or> (\<exists>t \<in> set triples. \<exists>f \<in> set (snd (snd t)).
          k = os_path_join (fst t) f \<and> probe fs root follow k \<noteq> None)"
  have weaken: "rest \<Longrightarrow> ?case" unfolding rest_def by auto
  have here: "k = d \<Longrightarrow> ?case" by (simp add: t)
  have old: "k \<in> fst ` set sizes \<Longrightarrow> ?case" by simp
  have file_case: "\<exists>f \<in> set fns. k = os_path_join d f \<and> probe fs root follow k \<noteq> None \<Longrightarrow> ?case"
    by (simp add: t del: not_None_eq)
  from Cons.IH[OF run Cons.prems(2)]
  have ih: "k \<in> fst ` set (if skipped max_depth w (current_depth root d) then sizes
              else seq_step fs root follow max_depth w d fns sizes) \<or> rest"
    unfolding rest_def .
  show ?case
  proof (cases "skipped max_depth w (current_depth root d)")
    case True
    with ih have "k \<in> fst ` set sizes \<or> rest" by simp
    with weaken old show ?thesis by blast
  next
    case False
    with ih have "k \<in> fst ` set (seq_step fs root follow max_depth w d fns sizes) \<or> rest" by simp
    then show ?thesis
    proof
      assume "k \<in> fst ` set (seq_step fs root follow max_depth w d fns sizes)"
      from seq_step_keys[OF this] here old file_case show ?thesis by blast
    next
      assume rest
      with weaken show ?thesis .
    qed
  qed
qed

lemma sequential_records:
  assumes "sequential cwd fs root follow max_depth wl triples sizes = Inr out"
    and "(d, ds, fns) \<in> set triples"
    and "dir_whitelisted cwd root wl d = Inr w"
    and "\<not> skipped max_depth w (current_depth root d)"
  shows "insert d {p \<in> os_path_join d ` set fns. probe fs root follow p \<noteq> None} \<subseteq> fst ` set out"
  using assms(1,2)
proof (induction triples arbitrary: sizes)
  case Nil
  then show ?case by simp
next
  case (Cons t triples)
  obtain d' ds' fns' where t: "t = (d', ds', fns')" by (cases t)
  from sequential_head[OF Cons.prems(1)[unfolded t]] obtain w' where
    w': "dir_whitelisted cwd root wl d' = Inr w'" and
    run: "sequential cwd fs root follow max_depth wl triples
             (if skipped max_depth w' (current_depth root d') then sizes
              else seq_step fs root follow max_depth w' d' fns' sizes) = Inr out" by blast
  show ?case
  proof (cases "(d, ds, fns) \<in> set triples")
    case True
    from Cons.IH[OF run True] show ?thesis .
  next
    case False
    with Cons.prems(2) have eq: "d' = d" "ds' = ds" "fns' = fns" by (simp_all add: t)
    with w' assms(3) have "w' = w" by simp
    with eq assms(4) run have run': "sequential cwd fs root follow max_depth wl triples
               (seq_step fs root follow max_depth w d fns sizes) = Inr out" by simp
    have m: "fst ` set (seq_step fs root follow max_depth w d fns sizes) \<subseteq> fst ` set out"
      by (rule sequential_mono[OF run'])
    have 1: "d \<in> fst ` set (seq_step fs root follow max_depth w d fns sizes)"
      using seq_step_mono[of d sizes fs root follow max_depth w fns] by simp
    have 2: "p \<in> fst ` set (seq_step fs root follow max_depth w d fns sizes)"
      if "p \<in> {p \<in> os_path_join d ` set fns. probe fs root follow p \<noteq> None}" for p
    proof -
      from that obtain f where "f \<in> set fns" "p = os_path_join d f"
        "probe fs root follow (os_path_join d f) \<noteq> None" by blast
      with seq_step_records[OF assms(4), of f fns fs follow sizes] show ?thesis by simp
    qed
    from 1 2 m show ?thesis by blast
  qed
qed

lemma dir_whitelisted_True:
  "dir_whitelisted cwd root wl d = Inr True \<Longrightarrow> wl \<noteq> [] \<and> rel_matches cwd root wl d"
  by (auto simp: dir_whitelisted_def rel_matches_def split: if_splits sum.splits)

lemma skipped_whitelisted: "\<not> skipped max_depth True depth"
  by (simp add: skipped_def)

lemma keeps_whitelisted:
  "wl \<noteq> [] \<Longrightarrow> rel_matches cwd root wl p \<Longrightarrow> keeps cwd root min_size cut_size wl bl all_files (p, v)"
  by (simp add: keeps_def split: option.splits)


lemma walk_directory_sequential:
  assumes "walk_directory cwd fs root max_depth follow one_filesystem wl False = Inr sizes"
  shows "sequential cwd fs root follow max_depth wl
           (os_walk fs root False follow (\<lambda>dirpath. False)) [(root, 0)] = Inr sizes"
  using assms
  by (simp add: walk_directory_def aggregate_def split: if_splits sum.splits prod.splits)

lemma sequential_nonempty_keys:
  assumes "sequential cwd fs root follow max_depth wl triples sizes = Inr out"
    and "[] \<notin> fst ` set sizes" and "[] \<notin> fst ` set triples"
  shows "[] \<notin> fst ` set out"
proof
  assume "[] \<in> fst ` set out"
  from sequential_keys[OF assms(1) this] assms(2,3)
  obtain t f where "t \<in> set triples" "[] = os_path_join (fst t) f" by blast
  moreover from this(1) assms(3) have "fst t \<noteq> []" by force
  ultimately show False using join_nonempty[of "fst t" f] by simp
qed

lemma os_walk_keys_nonempty: "[] \<notin> fst ` set (os_walk fs root topdown followlinks prune)"
  using os_walk_nonempty[of "[]" _ _ fs root topdown followlinks prune] by force







subsection \<open>Paths of a well-formed snapshot\<close>

























subsection \<open>Claims on patterns and filtering\<close>

text \<open>
  C7. \<^verbatim>\<open>match_pattern\<close> (default \<^verbatim>\<open>is_absolute=False\<close>): a compiled regular expression
  matches iff its search finds a match in the path; a glob that starts with the separator
  matches iff it matches the full path; any other glob matches iff it matches the whole
  path or a suffix of the path that starts right after a separator.
\<close>

theorem match_pattern_semantics:
  "(match_pattern path (Regex search) False \<longleftrightarrow> search path)
   \<and> (startswith ''/'' pat \<longrightarrow> (match_pattern path (Glob pat) False \<longleftrightarrow> fnmatch path pat))
   \<and> (\<not> startswith ''/'' pat \<longrightarrow>
        (match_pattern path (Glob pat) False \<longleftrightarrow>
           fnmatch path pat \<or> (\<exists>pre suf. path = pre @ ''/'' @ suf \<and> fnmatch suf pat)))"
  using fnmatch_star_slash [of path pat] by simp

theorem match_pattern_semantics_witness:
  "startswith ''/'' ''/a*'' \<and> \<not> match_pattern ''a/b'' (Glob ''/a*'') False
   \<and> \<not> startswith ''/'' ''*.log'' \<and> match_pattern ''a/b/x.log'' (Glob ''*.log'') False
   \<and> (fnmatch ''a/b/x.log'' ''*.log''
        \<or> (\<exists>pre suf. ''a/b/x.log'' = pre @ ''/'' @ suf \<and> fnmatch suf ''*.log''))"
  using match_pattern_semantics [of "''a/b''" "\<lambda>s. True" "''/a*''"]
        match_pattern_semantics [of "''a/b/x.log''" "\<lambda>s. True" "''*.log''"]
  by (simp add: fnmatch_def startswith_def)

text \<open>
  C8. The size floor of \<^verbatim>\<open>filter_paths\<close> is inclusive: an entry of the index that passes
  the membership stage and the cut stage is in the result iff its size is at least
  \<open>min_size\<close>, or it is whitelisted, or \<open>all_files\<close> is set. The index is a dictionary
  (distinct keys) without the empty path, on which \<^verbatim>\<open>os.path.relpath\<close> raises.
\<close>

theorem filter_paths_size_floor:
  assumes "distinct (map fst sizes)" and "[] \<notin> fst ` set sizes"
    and "(path, sz) \<in> set sizes"
    and "if wl \<noteq> [] then rel_matches cwd root wl path else \<not> rel_matches cwd root bl path"
    and "case cut_size of None \<Rightarrow> True | Some c \<Rightarrow> c \<le> sz \<or> rel_matches cwd root wl path"
  shows "\<exists>out. filter_paths cwd sizes root min_size cut_size wl bl all_files = Inr out
           \<and> ((path, sz) \<in> set out \<longleftrightarrow> min_size \<le> sz \<or> rel_matches cwd root wl path \<or> all_files)"
proof -
  have "filter_paths cwd sizes root min_size cut_size wl bl all_files =
          Inr (filter (keeps cwd root min_size cut_size wl bl all_files) sizes)"
    by (rule filter_paths_char [OF assms(1,2)])
  moreover have "keeps cwd root min_size cut_size wl bl all_files (path, sz) \<longleftrightarrow>
                   min_size \<le> sz \<or> rel_matches cwd root wl path \<or> all_files"
    using assms(4,5) by (auto simp: keeps_def split: option.splits if_splits)
  ultimately show ?thesis using assms(3) by simp
qed

theorem filter_paths_size_floor_witness:
  "\<exists>out. filter_paths ''/'' [(''/r/f'', 1048576), (''/r/g'', 1048575)] ''/r'' 1048576 None [] [] False = Inr out
         \<and> (''/r/f'', 1048576) \<in> set out"
  using filter_paths_size_floor [of "[(''/r/f'', 1048576), (''/r/g'', 1048575)]" "''/r/f''" 1048576
          "[]" "''/''" "''/r''" "[]" None 1048576 False]
  by (simp add: any_match_Nil_rel)

text \<open>
  C10, as amended. The result of \<^verbatim>\<open>filter_paths\<close> is a restriction of its input: every
  key of the output is a key of the input with the same size. With no patterns,
  \<open>min_size = 0\<close> and no cut size, the input is returned unchanged provided no key is the
  empty path and either \<open>all_files\<close> is set or no size is negative.
\<close>

theorem filter_paths_restriction:
  assumes "distinct (map fst sizes)"
  shows "(\<forall>out. filter_paths cwd sizes root min_size cut_size wl bl all_files = Inr out
            \<longrightarrow> (\<forall>p s. map_of out p = Some s \<longrightarrow> map_of sizes p = Some s))
       \<and> ([] \<notin> fst ` set sizes \<and> (all_files \<or> (\<forall>(p, s) \<in> set sizes. 0 \<le> s))
            \<longrightarrow> filter_paths cwd sizes root 0 None [] [] all_files = Inr sizes)"
proof (intro conjI allI impI)
  fix out p s
  assume out: "filter_paths cwd sizes root min_size cut_size wl bl all_files = Inr out"
    and ps: "map_of out p = Some s"
  from out obtain ms filtered where
    "filter_pass cwd root min_size wl bl all_files ms sizes [] = Inr filtered"
    by (auto simp: filter_paths_def split: sum.splits)
  then have "[] \<notin> fst ` set sizes" by (rule filter_pass_Inr)
  with assms out have "out = filter (keeps cwd root min_size cut_size wl bl all_files) sizes"
    by (simp add: filter_paths_char)
  with ps have "(p, s) \<in> set sizes" by (auto dest: map_of_SomeD)
  with assms show "map_of sizes p = Some s" by simp
next
  assume a: "[] \<notin> fst ` set sizes \<and> (all_files \<or> (\<forall>(p, s) \<in> set sizes. 0 \<le> s))"
  then have "filter (keeps cwd root 0 None [] [] all_files) sizes = sizes"
    by (auto simp: keeps_def any_match_Nil_rel filter_id_conv)
  with a assms show "filter_paths cwd sizes root 0 None [] [] all_files = Inr sizes"
    by (simp add: filter_paths_char)
qed

theorem filter_paths_restriction_witness:
  "map_of [(''/r/f'', 2048)] ''/r/f'' = Some (2048::int)
   \<and> filter_paths ''/'' [(''/r'', 0), (''/r/f'', 2048)] ''/r'' 0 None [] [] False
       = Inr [(''/r'', 0), (''/r/f'', 2048)]"
  using filter_paths_restriction [of "[(''/r'', 0), (''/r/f'', 2048)]" "''/''" "''/r''" 0 None "[]" "[]" False]
  by simp

theorem filter_paths_identity_counterexample:
  "filter_paths ''/'' [(''/r/a'', - 512)] ''/r'' 0 None [] [] False \<noteq> Inr [(''/r/a'', - 512)]"
  by (simp add: filter_paths_char keeps_def any_match_Nil_rel)

subsection \<open>Claims on the walk\<close>

text \<open>
  C1. The claim: the stored size of a directory is its own block allocation plus the
  stored sizes of its direct children. On a root with one subdirectory holding one file,
  all of eight blocks, the sequential walk stores 4096 for \<open>/r/sub\<close> (its file only, where
  the claim gives 8192) and 0 for the root (where the claim gives 8192); the parallel walk
  stores 4096 for each, the directory's own 4096 missing in both.
\<close>

theorem nested_tree_sizes:
  "walk_directory ''/'' nested_tree ''/r'' None False False [] False
     = Inr [(''/r'', 0), (''/r/sub/f'', 4096), (''/r/sub'', 4096)]
   \<and> walk_directory ''/'' nested_tree ''/r'' None False False [] True
     = Inr [(''/r'', 4096), (''/r/sub/f'', 4096), (''/r/sub'', 4096)]
   \<and> os_stat nested_tree ''/r'' ''/r'' = Some (Stat S_IFDIR 1 10 8)
   \<and> os_stat nested_tree ''/r'' ''/r/sub'' = Some (Stat S_IFDIR 1 11 8)"
  by code_simp

text \<open>
  C2. The claim: the parallel and the sequential strategy return the same mapping. On
  the same tree the sequential walk maps the root to 0 and the parallel walk maps it to
  4096.
\<close>

theorem parallel_differs_from_sequential:
  "size_at (walk_directory ''/'' nested_tree ''/r'' None False False [] False) ''/r'' = Some 0
   \<and> size_at (walk_directory ''/'' nested_tree ''/r'' None False False [] True) ''/r'' = Some 4096"
  by code_simp

text \<open>
  C3. The claim: with \<^verbatim>\<open>follow_symlinks\<close> a cycle of links raises \<open>TraversalError\<close> and no
  index is returned, the pair checked being that of the link target. On the cycle
  \<open>d1/A \<rightarrow> d2\<close>, \<open>d2/B \<rightarrow> d1\<close> the walk returns an index. \<^verbatim>\<open>should_follow_link\<close>, which
  the walk does not call, records the pair of the link itself, (1, 21), and not that of
  its target, (1, 12).
\<close>

theorem cycle_tree_walk:
  "walk_directory ''/'' cycle_tree ''/r'' (Some 1) True False [] False
     = Inr [(''/r'', 0), (''/r/d1'', 0), (''/r/d2'', 0)]
   \<and> os_lstat cycle_tree ''/r'' ''/r/d1/A'' = Some (Stat S_IFLNK 1 21 0)
   \<and> os_stat cycle_tree ''/r'' ''/r/d1/A'' = Some (Stat S_IFDIR 1 12 8)
   \<and> should_follow_link cycle_tree ''/r'' ''/r/d1/A'' True False {} = Inr (True, {(1, 21)})"
  by code_simp

text \<open>
  C4. The claim: with \<^verbatim>\<open>one_filesystem\<close> no child of a directory on another device is in
  the index. With the root on device 1 and \<open>/r/mnt\<close> on device 2, the file \<open>/r/mnt/g\<close>
  is in the index of both strategies.
\<close>

theorem mount_tree_walk:
  "walk_directory ''/'' mount_tree ''/r'' None False True [] False
     = Inr [(''/r'', 4096), (''/r/mnt/g'', 4096), (''/r/mnt'', 4096), (''/r/a'', 4096)]
   \<and> walk_directory ''/'' mount_tree ''/r'' None False True [] True
     = Inr [(''/r'', 8192), (''/r/a'', 4096), (''/r/mnt/g'', 4096), (''/r/mnt'', 4096)]
   \<and> os_stat mount_tree ''/r'' ''/r'' = Some (Stat S_IFDIR 1 10 8)
   \<and> os_stat mount_tree ''/r'' ''/r/mnt'' = Some (Stat S_IFDIR 2 2 8)"
  by code_simp

text \<open>
  C5. The claim: a path whose root-relative path matches a whitelist pattern appears in
  the output whatever \<^verbatim>\<open>max_depth\<close> is. In a tree five levels deep, with \<^verbatim>\<open>max_depth = 1\<close>
  and the whitelist \<open>keep\<close>, the directory \<open>a/b/c/d/keep\<close> matches. The parallel strategy
  returns an index without it, its first pass having emptied \<^verbatim>\<open>dirnames\<close> at \<open>a/b\<close>; the
  sequential strategy records it with its file.
\<close>

theorem whitelisted_directory_pruned:
  "rel_matches ''/'' ''/r'' [Glob ''keep''] ''/r/a/b/c/d/keep''
   \<and> walk_directory ''/'' deep_tree ''/r'' (Some 1) False False [Glob ''keep''] True
       = Inr [(''/r'', 0), (''/r/a'', 0)]
   \<and> walk_directory ''/'' deep_tree ''/r'' (Some 1) False False [Glob ''keep''] False
       = Inr [(''/r'', 0), (''/r/a/b/c/d/keep/x'', 8192), (''/r/a/b/c/d/keep'', 8192), (''/r/a'', 0)]"
  by code_simp

text \<open>
  The sequential strategy records every directory that the bottom-up walk visits and
  whose root-relative path matches a whitelist pattern, whatever \<^verbatim>\<open>max_depth\<close> is, together
  with each file directly in it whose probe succeeds, and \<^verbatim>\<open>filter_paths\<close> with the same
  whitelist retains the directory with its size.
\<close>

lemma sequential_records_whitelisted:
  assumes "root \<noteq> []"
    and "one_filesystem \<longrightarrow> os_stat fs root root \<noteq> None"
    and "(d, ds, fns) \<in> set (os_walk fs root False follow_symlinks (\<lambda>dirpath. False))"
    and "dir_whitelisted cwd root wl d = Inr True"
  shows "\<exists>sizes out v.
           walk_directory cwd fs root max_depth follow_symlinks one_filesystem wl False = Inr sizes
         \<and> map_of sizes d = Some v
         \<and> (f \<in> set fns \<and> probe fs root follow_symlinks (os_path_join d f) \<noteq> None
              \<longrightarrow> os_path_join d f \<in> fst ` set sizes)
         \<and> filter_paths cwd sizes root min_size cut_size wl bl all_files = Inr out
         \<and> map_of out d = Some v"
proof -
  from walk_directory_Inr[OF assms(2)] obtain sizes where
    w: "walk_directory cwd fs root max_depth follow_symlinks one_filesystem wl False = Inr sizes"
    by blast
  then have seq: "sequential cwd fs root follow_symlinks max_depth wl
           (os_walk fs root False follow_symlinks (\<lambda>dirpath. False)) [(root, 0)] = Inr sizes"
    by (rule walk_directory_sequential)
  have rec: "insert d {p \<in> os_path_join d ` set fns. probe fs root follow_symlinks p \<noteq> None}
               \<subseteq> fst ` set sizes"
    by (rule sequential_records[OF seq assms(3,4) skipped_whitelisted])
  then have "d \<in> fst ` set sizes" by blast
  then obtain v where v: "(d, v) \<in> set sizes" by force
  have dist: "distinct (map fst sizes)"
    using sequential_distinct[OF seq] by simp
  have ne: "[] \<notin> fst ` set sizes"
    using sequential_nonempty_keys[OF seq] assms(1) os_walk_keys_nonempty by simp
  from dist v have mv: "map_of sizes d = Some v" by simp
  have files: "f \<in> set fns \<and> probe fs root follow_symlinks (os_path_join d f) \<noteq> None
              \<longrightarrow> os_path_join d f \<in> fst ` set sizes"
    using rec by blast
  define out where "out = filter (keeps cwd root min_size cut_size wl bl all_files) sizes"
  have fp: "filter_paths cwd sizes root min_size cut_size wl bl all_files = Inr out"
    unfolding out_def by (rule filter_paths_char[OF dist ne])
  from dir_whitelisted_True[OF assms(4)]
  have "keeps cwd root min_size cut_size wl bl all_files (d, v)" by (simp add: keeps_whitelisted)
  with v have "(d, v) \<in> set out" by (simp add: out_def)
  moreover from dist have "distinct (map fst out)" by (simp add: out_def distinct_map_filter)
  ultimately have "map_of out d = Some v" by simp
  with w mv files fp show ?thesis by blast
qed

text \<open>
  Both strategies match the whitelist against directory paths only: the file
  \<open>a/b/c/d/e.log\<close> matches the pattern \<open>*.log\<close>, its directory does not, and with
  \<^verbatim>\<open>max_depth = 1\<close> the file is in neither the index nor the filtered output.
\<close>

lemma whitelist_tested_on_directories:
  "rel_matches ''/'' ''/r'' [Glob ''*.log''] ''/r/a/b/c/d/e.log''
   \<and> walk_directory ''/'' deep_tree ''/r'' (Some 1) False False [Glob ''*.log''] False
       = Inr [(''/r'', 0), (''/r/a'', 0)]
   \<and> filter_paths ''/'' [(''/r'', 0), (''/r/a'', 0)] ''/r'' 0 None [Glob ''*.log''] [] False = Inr []"
  by code_simp



end
